theory Spec2Isabelle
  imports Main
begin

section \<open>Pagers of the Firestore client: \<open>services/firestore/pagers.py\<close>\<close>

text \<open>
  The file defines two classes, \<open>ListDocumentsPager\<close> and \<open>PartitionQueryPager\<close>. Each wraps
  a callable, a request object and the most recent response, and offers two generators:
  the property \<open>pages\<close> and \<open>__iter__\<close>. Both classes are embedded below, method by method,
  followed by the single parametrised paginator that the specification describes.
\<close>

subsection \<open>Messages\<close>

text \<open>
  Modelled from the spec: the request and response message types are declared in
  \<open>google.firestore_v1.types\<close>, which is not part of the file. Of a request the pagers only
  touch the field \<open>page_token\<close>; of a response they read \<open>next_page_token\<close> and one repeated
  field (\<open>documents\<close> or \<open>partitions\<close>). Every other field of a message lives in the
  extension slot of the record, so the messages stay opaque apart from these fields.
\<close>

record request =
  page_token :: string

record response =
  next_page_token :: string

record 'd ListDocumentsResponse = response +
  documents :: "'d list"

record 'c PartitionQueryResponse = response +
  partitions :: "'c list"

subsection \<open>Objects, the remote side and the pager's attributes\<close>

text \<open>
  Request objects are mutable and shared by reference, so they live in a store: \<open>heap\<close> maps
  an address to the request held there, and \<open>next_free\<close> is the first address not yet
  handed out. \<open>remote\<close> is whatever state the callable depends on (the server, a mock's
  list of canned answers), and \<open>calls\<close> records, in order, the argument of every invocation
  of the callable.
\<close>

type_synonym addr = nat

record ('q, 'w) env =
  heap :: "addr \<Rightarrow> 'q request_scheme"
  next_free :: addr
  remote :: 'w
  calls :: "'q request_scheme list"

text \<open>
  The callable takes the remote state and the fields the request holds at the time of the
  call, and returns either an error (the exception it raises) or a response, together with
  the new remote state. It neither keeps nor changes the request object.
\<close>

type_synonym ('q, 'w, 'r, 'e) fetch = "'w \<Rightarrow> 'q request_scheme \<Rightarrow> ('e + 'r) \<times> 'w"

text \<open>
  The three instance attributes \<open>_method\<close>, \<open>_request\<close> and \<open>_response\<close> of a pager, on top of
  the environment it runs in. \<open>_request\<close> is a reference into the store.
\<close>

record ('q, 'w, 'r, 'e) pager = "('q, 'w) env" +
  self_method :: "('q, 'w, 'r, 'e) fetch"
  self_request :: addr
  self_response :: 'r

subsection \<open>Generators\<close>

text \<open>
  What one call of \<open>next\<close> on a generator gives: a value, \<open>StopIteration\<close>, or an exception
  that escapes the generator body.
\<close>

datatype ('y, 'e) signal = Yield 'y | StopIteration | Raise 'e

text \<open>
  The frame of a \<open>pages\<close> generator. Both \<open>yield\<close> statements of the body resume at the
  test of the \<open>while\<close> loop, so a suspended frame needs no further detail. A generator whose
  body returned or raised is finished for good.
\<close>

datatype gen_pc = NotStarted | Suspended | Finished

text \<open>
  The frame of an \<open>__iter__\<close> generator: once started it holds the \<open>pages\<close> generator of its
  \<open>for\<close> loop and the elements of the current page that \<open>yield from\<close> has not delivered yet.
\<close>

datatype 'i iter_pc = IterNotStarted | IterRunning gen_pc "'i list" | IterFinished

subsection \<open>\<open>ListDocumentsPager\<close>\<close>

text \<open>
  Modelled from the spec: the constructor \<open>ListDocumentsRequest(request)\<close> of the request
  type is not part of the file; the specification says that construction copies the
  initial request. It allocates a fresh object holding the fields of the one at \<open>request\<close>
  and returns its address.
\<close>

definition ListDocumentsRequest :: "addr \<Rightarrow> ('q, 'w) env \<Rightarrow> addr \<times> ('q, 'w) env" where
  "ListDocumentsRequest request e =
     (next_free e,
      e\<lparr>heap := (heap e)(next_free e := heap e request), next_free := Suc (next_free e)\<rparr>)"

text \<open>\<open>__init__\<close> sets the three attributes; the pager then lives in the environment so changed.\<close>

definition ListDocumentsPager_init ::
  "('q, 'w, ('d, 'x) ListDocumentsResponse_scheme, 'e) fetch \<Rightarrow> addr \<Rightarrow>
   ('d, 'x) ListDocumentsResponse_scheme \<Rightarrow> ('q, 'w) env \<Rightarrow>
   ('q, 'w, ('d, 'x) ListDocumentsResponse_scheme, 'e) pager" where
  "ListDocumentsPager_init method request response e =
     (let (copy, e') = ListDocumentsRequest request e
      in \<lparr>heap = heap e', next_free = next_free e', remote = remote e', calls = calls e',
          self_method = method, self_request = copy, self_response = response\<rparr>)"

text \<open>
  \<open>__getattr__\<close>: attribute lookup on the response type is a parameter, since the type is
  declared elsewhere.
\<close>

definition ListDocumentsPager_getattr ::
  "(('d, 'x) ListDocumentsResponse_scheme \<Rightarrow> string \<Rightarrow> 'v) \<Rightarrow>
   ('q, 'w, ('d, 'x) ListDocumentsResponse_scheme, 'e) pager \<Rightarrow> string \<Rightarrow> 'v" where
  "ListDocumentsPager_getattr getattr_response s name = getattr_response (self_response s) name"

text \<open>One call of \<open>next\<close> on a generator obtained from the property \<open>pages\<close>.\<close>

definition ListDocumentsPager_pages ::
  "gen_pc \<Rightarrow> ('q, 'w, ('d, 'x) ListDocumentsResponse_scheme, 'e) pager \<Rightarrow>
   (('d, 'x) ListDocumentsResponse_scheme, 'e) signal \<times> gen_pc \<times>
   ('q, 'w, ('d, 'x) ListDocumentsResponse_scheme, 'e) pager" where
  "ListDocumentsPager_pages pc s =
     (case pc of
        NotStarted \<Rightarrow> (Yield (self_response s), Suspended, s)
      | Suspended \<Rightarrow>
          if next_page_token (self_response s) \<noteq> [] then
            let s1 = s\<lparr>heap := (heap s)(self_request s :=
                       (heap s (self_request s))\<lparr>page_token := next_page_token (self_response s)\<rparr>)\<rparr>;
                arg = heap s1 (self_request s1);
                (res, w) = self_method s1 (remote s1) arg;
                s2 = s1\<lparr>remote := w, calls := calls s1 @ [arg]\<rparr>
            in (case res of
                  Inl err \<Rightarrow> (Raise err, Finished, s2)
                | Inr r \<Rightarrow> (Yield r, Suspended, s2\<lparr>self_response := r\<rparr>))
          else (StopIteration, Finished, s)
      | Finished \<Rightarrow> (StopIteration, Finished, s))"

text \<open>
  One call of \<open>next\<close> on a generator obtained from \<open>__iter__\<close>. Pages with an empty
  \<open>documents\<close> field are passed over, so a single call may fetch any number of pages, and
  may not return at all: the result is \<open>None\<close> then.
\<close>

partial_function (option) ListDocumentsPager_iter ::
  "'d iter_pc \<Rightarrow> ('q, 'w, ('d, 'x) ListDocumentsResponse_scheme, 'e) pager \<Rightarrow>
   (('d, 'e) signal \<times> 'd iter_pc \<times>
    ('q, 'w, ('d, 'x) ListDocumentsResponse_scheme, 'e) pager) option" where
  "ListDocumentsPager_iter pc s =
     (case pc of
        IterNotStarted \<Rightarrow> ListDocumentsPager_iter (IterRunning NotStarted []) s
      | IterRunning g (x # xs) \<Rightarrow> Some (Yield x, IterRunning g xs, s)
      | IterRunning g [] \<Rightarrow>
          (case ListDocumentsPager_pages g s of
             (Yield page, g', s') \<Rightarrow> ListDocumentsPager_iter (IterRunning g' (documents page)) s'
           | (StopIteration, g', s') \<Rightarrow> Some (StopIteration, IterFinished, s')
           | (Raise err, g', s') \<Rightarrow> Some (Raise err, IterFinished, s'))
      | IterFinished \<Rightarrow> Some (StopIteration, IterFinished, s))"

text \<open>\<open>__repr__\<close>; the \<open>repr\<close> of the response type is a parameter.\<close>

definition ListDocumentsPager_repr ::
  "(('d, 'x) ListDocumentsResponse_scheme \<Rightarrow> string) \<Rightarrow>
   ('q, 'w, ('d, 'x) ListDocumentsResponse_scheme, 'e) pager \<Rightarrow> string" where
  "ListDocumentsPager_repr repr_response s =
     ''ListDocumentsPager'' @ ''<'' @ repr_response (self_response s) @ ''>''"

text \<open>
  Attribute access \<open>pager.name\<close> as the language resolves it: the instance attributes and
  the names of the class are found by the normal lookup, and \<open>__getattr__\<close> is called only
  when that lookup finds nothing. The names every object inherits from \<open>object\<close> are a
  parameter (\<open>inherited\<close>). Reading \<open>pages\<close> runs the property and gives a generator that has
  not started.
\<close>

datatype ('m, 'r, 'v) attribute =
    Own_method 'm
  | Own_request addr
  | Own_response 'r
  | Own_pages gen_pc
  | Own_bound string
  | Inherited string
  | Forwarded 'v

definition ListDocumentsPager_names :: "string list" where
  "ListDocumentsPager_names =
     [''_method'', ''_request'', ''_response'', ''pages'',
      ''__init__'', ''__getattr__'', ''__iter__'', ''__repr__'']"

definition ListDocumentsPager_getattribute ::
  "(('d, 'x) ListDocumentsResponse_scheme \<Rightarrow> string \<Rightarrow> 'v) \<Rightarrow> string list \<Rightarrow>
   ('q, 'w, ('d, 'x) ListDocumentsResponse_scheme, 'e) pager \<Rightarrow> string \<Rightarrow>
   (('q, 'w, ('d, 'x) ListDocumentsResponse_scheme, 'e) fetch,
    ('d, 'x) ListDocumentsResponse_scheme, 'v) attribute" where
  "ListDocumentsPager_getattribute getattr_response inherited s name =
     (if name = ''_method'' then Own_method (self_method s)
      else if name = ''_request'' then Own_request (self_request s)
      else if name = ''_response'' then Own_response (self_response s)
      else if name = ''pages'' then Own_pages NotStarted
      else if name \<in> set [''__init__'', ''__getattr__'', ''__iter__'', ''__repr__'']
        then Own_bound name
      else if name \<in> set inherited then Inherited name
      else Forwarded (ListDocumentsPager_getattr getattr_response s name))"

subsection \<open>\<open>PartitionQueryPager\<close>\<close>

text \<open>
  Modelled from the spec: the constructor \<open>PartitionQueryRequest(request)\<close> of the request
  type is not part of the file either, and is taken to copy its argument in the same way.
\<close>

definition PartitionQueryRequest :: "addr \<Rightarrow> ('q, 'w) env \<Rightarrow> addr \<times> ('q, 'w) env" where
  "PartitionQueryRequest request e =
     (next_free e,
      e\<lparr>heap := (heap e)(next_free e := heap e request), next_free := Suc (next_free e)\<rparr>)"

definition PartitionQueryPager_init ::
  "('q, 'w, ('c, 'x) PartitionQueryResponse_scheme, 'e) fetch \<Rightarrow> addr \<Rightarrow>
   ('c, 'x) PartitionQueryResponse_scheme \<Rightarrow> ('q, 'w) env \<Rightarrow>
   ('q, 'w, ('c, 'x) PartitionQueryResponse_scheme, 'e) pager" where
  "PartitionQueryPager_init method request response e =
     (let (copy, e') = PartitionQueryRequest request e
      in \<lparr>heap = heap e', next_free = next_free e', remote = remote e', calls = calls e',
          self_method = method, self_request = copy, self_response = response\<rparr>)"

definition PartitionQueryPager_getattr ::
  "(('c, 'x) PartitionQueryResponse_scheme \<Rightarrow> string \<Rightarrow> 'v) \<Rightarrow>
   ('q, 'w, ('c, 'x) PartitionQueryResponse_scheme, 'e) pager \<Rightarrow> string \<Rightarrow> 'v" where
  "PartitionQueryPager_getattr getattr_response s name = getattr_response (self_response s) name"

definition PartitionQueryPager_pages ::
  "gen_pc \<Rightarrow> ('q, 'w, ('c, 'x) PartitionQueryResponse_scheme, 'e) pager \<Rightarrow>
   (('c, 'x) PartitionQueryResponse_scheme, 'e) signal \<times> gen_pc \<times>
   ('q, 'w, ('c, 'x) PartitionQueryResponse_scheme, 'e) pager" where
  "PartitionQueryPager_pages pc s =
     (case pc of
        NotStarted \<Rightarrow> (Yield (self_response s), Suspended, s)
      | Suspended \<Rightarrow>
          if next_page_token (self_response s) \<noteq> [] then
            let s1 = s\<lparr>heap := (heap s)(self_request s :=
                       (heap s (self_request s))\<lparr>page_token := next_page_token (self_response s)\<rparr>)\<rparr>;
                arg = heap s1 (self_request s1);
                (res, w) = self_method s1 (remote s1) arg;
                s2 = s1\<lparr>remote := w, calls := calls s1 @ [arg]\<rparr>
            in (case res of
                  Inl err \<Rightarrow> (Raise err, Finished, s2)
                | Inr r \<Rightarrow> (Yield r, Suspended, s2\<lparr>self_response := r\<rparr>))
          else (StopIteration, Finished, s)
      | Finished \<Rightarrow> (StopIteration, Finished, s))"

partial_function (option) PartitionQueryPager_iter ::
  "'c iter_pc \<Rightarrow> ('q, 'w, ('c, 'x) PartitionQueryResponse_scheme, 'e) pager \<Rightarrow>
   (('c, 'e) signal \<times> 'c iter_pc \<times>
    ('q, 'w, ('c, 'x) PartitionQueryResponse_scheme, 'e) pager) option" where
  "PartitionQueryPager_iter pc s =
     (case pc of
        IterNotStarted \<Rightarrow> PartitionQueryPager_iter (IterRunning NotStarted []) s
      | IterRunning g (x # xs) \<Rightarrow> Some (Yield x, IterRunning g xs, s)
      | IterRunning g [] \<Rightarrow>
          (case PartitionQueryPager_pages g s of
             (Yield page, g', s') \<Rightarrow> PartitionQueryPager_iter (IterRunning g' (partitions page)) s'
           | (StopIteration, g', s') \<Rightarrow> Some (StopIteration, IterFinished, s')
           | (Raise err, g', s') \<Rightarrow> Some (Raise err, IterFinished, s'))
      | IterFinished \<Rightarrow> Some (StopIteration, IterFinished, s))"

definition PartitionQueryPager_repr ::
  "(('c, 'x) PartitionQueryResponse_scheme \<Rightarrow> string) \<Rightarrow>
   ('q, 'w, ('c, 'x) PartitionQueryResponse_scheme, 'e) pager \<Rightarrow> string" where
  "PartitionQueryPager_repr repr_response s =
     ''PartitionQueryPager'' @ ''<'' @ repr_response (self_response s) @ ''>''"

subsection \<open>The paginator of the specification\<close>

text \<open>
  The specification describes one component, \<open>PagePuller\<close>, parametrised by the accessor
  of the repeated field (\<open>items\<close>) and, for the display, by the class name. The
  definitions below follow its wording: Construct, Pages, Items, field delegation, display.
\<close>

definition PagePuller_Construct ::
  "('q, 'w, 'x response_scheme, 'e) fetch \<Rightarrow> addr \<Rightarrow> 'x response_scheme \<Rightarrow> ('q, 'w) env \<Rightarrow>
   ('q, 'w, 'x response_scheme, 'e) pager" where
  "PagePuller_Construct fetch initialRequest initialResponse e =
     \<lparr>heap = (heap e)(next_free e := heap e initialRequest),
      next_free = Suc (next_free e),
      remote = remote e,
      calls = calls e,
      self_method = fetch,
      self_request = next_free e,
      self_response = initialResponse\<rparr>"

definition PagePuller_Pages ::
  "gen_pc \<Rightarrow> ('q, 'w, 'x response_scheme, 'e) pager \<Rightarrow>
   ('x response_scheme, 'e) signal \<times> gen_pc \<times> ('q, 'w, 'x response_scheme, 'e) pager" where
  "PagePuller_Pages pc s =
     (case pc of
        NotStarted \<Rightarrow> (Yield (self_response s), Suspended, s)
      | Suspended \<Rightarrow>
          if next_page_token (self_response s) = [] then (StopIteration, Finished, s)
          else
            let tok = next_page_token (self_response s);
                req = (heap s (self_request s))\<lparr>page_token := tok\<rparr>;
                s1 = s\<lparr>heap := (heap s)(self_request s := req), calls := calls s @ [req]\<rparr>
            in (case self_method s (remote s) req of
                  (Inl err, w) \<Rightarrow> (Raise err, Finished, s1\<lparr>remote := w\<rparr>)
                | (Inr r, w) \<Rightarrow> (Yield r, Suspended, s1\<lparr>remote := w, self_response := r\<rparr>))
      | Finished \<Rightarrow> (StopIteration, Finished, s))"

partial_function (option) PagePuller_Items ::
  "('x response_scheme \<Rightarrow> 'i list) \<Rightarrow> 'i iter_pc \<Rightarrow> ('q, 'w, 'x response_scheme, 'e) pager \<Rightarrow>
   (('i, 'e) signal \<times> 'i iter_pc \<times> ('q, 'w, 'x response_scheme, 'e) pager) option" where
  "PagePuller_Items items pc s =
     (case pc of
        IterNotStarted \<Rightarrow> PagePuller_Items items (IterRunning NotStarted []) s
      | IterRunning g (x # xs) \<Rightarrow> Some (Yield x, IterRunning g xs, s)
      | IterRunning g [] \<Rightarrow>
          (case PagePuller_Pages g s of
             (Yield page, g', s') \<Rightarrow> PagePuller_Items items (IterRunning g' (items page)) s'
           | (StopIteration, g', s') \<Rightarrow> Some (StopIteration, IterFinished, s')
           | (Raise err, g', s') \<Rightarrow> Some (Raise err, IterFinished, s'))
      | IterFinished \<Rightarrow> Some (StopIteration, IterFinished, s))"

definition PagePuller_Delegate ::
  "('x response_scheme \<Rightarrow> string \<Rightarrow> 'v) \<Rightarrow> ('q, 'w, 'x response_scheme, 'e) pager \<Rightarrow> string \<Rightarrow> 'v" where
  "PagePuller_Delegate getattr_response s name = getattr_response (self_response s) name"

definition PagePuller_Display ::
  "string \<Rightarrow> ('x response_scheme \<Rightarrow> string) \<Rightarrow> ('q, 'w, 'x response_scheme, 'e) pager \<Rightarrow> string" where
  "PagePuller_Display class_name repr_response s =
     class_name @ ''<'' @ repr_response (self_response s) @ ''>''"

subsection \<open>Consumers\<close>

text \<open>
  A \<open>for\<close> loop over a generator (or \<open>list(...)\<close>): it calls \<open>next\<close> until the generator stops
  or raises. The result lists every value yielded, each with the state in which the
  generator was suspended when it yielded it, then how the loop ended (\<open>None\<close> for
  \<open>StopIteration\<close>, \<open>Some err\<close> for an exception), the final frame and the final state.
  The loop need not end; the result is \<open>None\<close> then.
\<close>

partial_function (option) consume ::
  "('g \<Rightarrow> 's \<Rightarrow> (('y, 'e) signal \<times> 'g \<times> 's) option) \<Rightarrow> 'g \<Rightarrow> 's \<Rightarrow>
   (('y \<times> 's) list \<times> 'e option \<times> 'g \<times> 's) option" where
  "consume nxt g s =
     (case nxt g s of
        None \<Rightarrow> None
      | Some (Yield y, g', s') \<Rightarrow>
          Option.bind (consume nxt g' s') (\<lambda>(ys, fin). Some ((y, s') # ys, fin))
      | Some (StopIteration, g', s') \<Rightarrow> Some ([], None, g', s')
      | Some (Raise err, g', s') \<Rightarrow> Some ([], Some err, g', s'))"

text \<open>A \<open>next\<close> that always returns, as that of \<open>pages\<close> does.\<close>

definition returns :: "('g \<Rightarrow> 's \<Rightarrow> 'a) \<Rightarrow> 'g \<Rightarrow> 's \<Rightarrow> 'a option" where
  "returns nxt g s = Some (nxt g s)"

text \<open>
  The states a pager can be in after any number of calls of \<open>next\<close> on any of its
  generators, whatever their frames.
\<close>

inductive reachable ::
  "('q, 'w, ('d, 'x) ListDocumentsResponse_scheme, 'e) pager \<Rightarrow>
   ('q, 'w, ('d, 'x) ListDocumentsResponse_scheme, 'e) pager \<Rightarrow> bool" where
  here: "reachable s s"
| next_page: "reachable s s1 \<Longrightarrow> ListDocumentsPager_pages g s1 = (sig, g', s2) \<Longrightarrow> reachable s s2"
| next_item: "reachable s s1 \<Longrightarrow> ListDocumentsPager_iter pc s1 = Some (isig, pc', s2) \<Longrightarrow> reachable s s2"

text \<open>
  The fixture of the specification's testable properties: a chain of responses in which
  every response but the last has a non-empty token, the callable answers a request
  carrying that token with the next response of the chain, and the last token is empty.
\<close>

fun page_chain :: "('q, 'w, 'x response_scheme, 'e) fetch \<Rightarrow> 'x response_scheme list \<Rightarrow> bool" where
  "page_chain m [] = False"
| "page_chain m [r] = (next_page_token r = [])"
| "page_chain m (r # r' # rs) =
     (next_page_token r \<noteq> [] \<and>
      (\<forall>w q. page_token q = next_page_token r \<longrightarrow> fst (m w q) = Inr r') \<and>
      page_chain m (r' # rs))"

text \<open>The elements of the pages of a consumed \<open>pages\<close> view, each with its page's state.\<close>

definition flatten :: "('r \<Rightarrow> 'i list) \<Rightarrow> ('r \<times> 's) list \<Rightarrow> ('i \<times> 's) list" where
  "flatten items ps = concat (map (\<lambda>(page, st). map (\<lambda>x. (x, st)) (items page)) ps)"

subsection \<open>The concrete scenario of the specification\<close>

text \<open>
  Two pages: the first holds \<open>a\<close>, \<open>b\<close> and the token \<open>T1\<close>; the callable answers \<open>T1\<close> with
  the second, which holds \<open>c\<close> and an empty token. A second callable always fails. The
  remote state counts the calls. The caller's request object sits at address 0.
\<close>

definition page1 :: "string ListDocumentsResponse" where
  "page1 = \<lparr>next_page_token = ''T1'', documents = [''a'', ''b'']\<rparr>"

definition page2 :: "string ListDocumentsResponse" where
  "page2 = \<lparr>next_page_token = [], documents = [''c'']\<rparr>"

definition fetch_T1 :: "(unit, nat, string ListDocumentsResponse, string) fetch" where
  "fetch_T1 w q = (if page_token q = ''T1'' then Inr page2 else Inl ''no such page'', Suc w)"


definition env0 :: "(unit, nat) env" where
  "env0 = \<lparr>heap = (\<lambda>a. \<lparr>page_token = []\<rparr>), next_free = 1, remote = 0, calls = []\<rparr>"

text \<open>
  The pager of the scenario as constructed, and as it is once the second page has been
  fetched; a two-page scenario for \<open>PartitionQueryPager\<close>; a \<open>repr\<close> and an attribute lookup
  for responses.
\<close>

definition scenario_start :: "(unit, nat, string ListDocumentsResponse, string) pager" where
  "scenario_start = ListDocumentsPager_init fetch_T1 0 page1 env0"

definition scenario_end :: "(unit, nat, string ListDocumentsResponse, string) pager" where
  "scenario_end =
     \<lparr>heap = (heap env0)(1 := \<lparr>page_token = ''T1''\<rparr>), next_free = 2, remote = 1,
      calls = [\<lparr>page_token = ''T1''\<rparr>],
      self_method = fetch_T1, self_request = 1, self_response = page2\<rparr>"

definition cursors1 :: "nat PartitionQueryResponse" where
  "cursors1 = \<lparr>next_page_token = ''P1'', partitions = [1, 2]\<rparr>"

definition cursors2 :: "nat PartitionQueryResponse" where
  "cursors2 = \<lparr>next_page_token = [], partitions = [3]\<rparr>"

definition fetch_P1 :: "(unit, nat, nat PartitionQueryResponse, string) fetch" where
  "fetch_P1 w q = (if page_token q = ''P1'' then Inr cursors2 else Inl ''no such page'', Suc w)"

definition show_token :: "'x response_scheme \<Rightarrow> string" where
  "show_token r = ''token='' @ next_page_token r"

definition field_named :: "'x response_scheme \<Rightarrow> string \<Rightarrow> string option" where
  "field_named r name = (if name = ''next_page_token'' then Some (next_page_token r) else None)"

section \<open>Basic facts\<close>

subsection \<open>The two classes are the paginator\<close>

lemma ListDocumentsPager_init_eq:
  "ListDocumentsPager_init method request response e =
     \<lparr>heap = (heap e)(next_free e := heap e request),
      next_free = Suc (next_free e),
      remote = remote e,
      calls = calls e,
      self_method = method,
      self_request = next_free e,
      self_response = response\<rparr>"
  by (simp add: ListDocumentsPager_init_def ListDocumentsRequest_def)

lemma PartitionQueryPager_init_eq:
  "PartitionQueryPager_init method request response e =
     \<lparr>heap = (heap e)(next_free e := heap e request),
      next_free = Suc (next_free e),
      remote = remote e,
      calls = calls e,
      self_method = method,
      self_request = next_free e,
      self_response = response\<rparr>"
  by (simp add: PartitionQueryPager_init_def PartitionQueryRequest_def)

lemmas iter_induct =
  ListDocumentsPager_iter.raw_induct[rotated 1, consumes 1, case_names step]
lemmas partition_iter_induct =
  PartitionQueryPager_iter.raw_induct[rotated 1, consumes 1, case_names step]
lemmas Items_induct =
  PagePuller_Items.raw_induct[rotated 1, consumes 1, case_names step]
lemmas consume_induct =
  consume.raw_induct[rotated 1, consumes 1, case_names step]

lemma pages_refines: "ListDocumentsPager_pages pc s = PagePuller_Pages pc s"
  by (cases pc)
     (auto simp: ListDocumentsPager_pages_def PagePuller_Pages_def Let_def
           split: prod.splits sum.splits)

lemma partition_pages_refines: "PartitionQueryPager_pages pc s = PagePuller_Pages pc s"
  by (cases pc)
     (auto simp: PartitionQueryPager_pages_def PagePuller_Pages_def Let_def
           split: prod.splits sum.splits)

lemma pages_is_Pages: "ListDocumentsPager_pages = PagePuller_Pages"
  by (intro ext) (rule pages_refines)

lemma partition_pages_is_Pages: "PartitionQueryPager_pages = PagePuller_Pages"
  by (intro ext) (rule partition_pages_refines)

lemma iter_le_Items:
  "ListDocumentsPager_iter pc s = Some y \<Longrightarrow> PagePuller_Items documents pc s = Some y"
proof (induct rule: iter_induct)
  case (step iter pc s y)
  show ?case
    using step(2)
    by (subst PagePuller_Items.simps)
       (auto split: iter_pc.splits list.splits prod.splits signal.splits
             simp: pages_refines step(1))
qed

lemma Items_le_iter:
  "PagePuller_Items items pc s = Some y \<Longrightarrow> items = documents \<Longrightarrow>
   ListDocumentsPager_iter pc s = Some y"
proof (induct rule: Items_induct)
  case (step Items items pc s y)
  show ?case
    using step(2,3)
    by (subst ListDocumentsPager_iter.simps)
       (auto split: iter_pc.splits list.splits prod.splits signal.splits
             simp: pages_refines step(1))
qed

lemma iter_refines: "ListDocumentsPager_iter pc s = PagePuller_Items documents pc s"
proof (cases "ListDocumentsPager_iter pc s")
  case None
  then show ?thesis
    using Items_le_iter[of documents pc s] by (cases "PagePuller_Items documents pc s") auto
next
  case (Some y)
  then show ?thesis using iter_le_Items by fastforce
qed

lemma partition_iter_le_Items:
  "PartitionQueryPager_iter pc s = Some y \<Longrightarrow> PagePuller_Items partitions pc s = Some y"
proof (induct rule: partition_iter_induct)
  case (step iter pc s y)
  show ?case
    using step(2)
    by (subst PagePuller_Items.simps)
       (auto split: iter_pc.splits list.splits prod.splits signal.splits
             simp: partition_pages_refines step(1))
qed

lemma Items_le_partition_iter:
  "PagePuller_Items items pc s = Some y \<Longrightarrow> items = partitions \<Longrightarrow>
   PartitionQueryPager_iter pc s = Some y"
proof (induct rule: Items_induct)
  case (step Items items pc s y)
  show ?case
    using step(2,3)
    by (subst PartitionQueryPager_iter.simps)
       (auto split: iter_pc.splits list.splits prod.splits signal.splits
             simp: partition_pages_refines step(1))
qed

lemma partition_iter_refines:
  "PartitionQueryPager_iter pc s = PagePuller_Items partitions pc s"
proof (cases "PartitionQueryPager_iter pc s")
  case None
  then show ?thesis
    using Items_le_partition_iter[of partitions pc s]
    by (cases "PagePuller_Items partitions pc s") auto
next
  case (Some y)
  then show ?thesis using partition_iter_le_Items by fastforce
qed

lemma iter_is_Items: "ListDocumentsPager_iter = PagePuller_Items documents"
  by (intro ext) (rule iter_refines)

lemma partition_iter_is_Items: "PartitionQueryPager_iter = PagePuller_Items partitions"
  by (intro ext) (rule partition_iter_refines)

subsection \<open>One call of \<open>next\<close> on a \<open>pages\<close> generator\<close>

lemma Pages_NotStarted: "PagePuller_Pages NotStarted s = (Yield (self_response s), Suspended, s)"
  by (simp add: PagePuller_Pages_def)

lemma Pages_Finished: "PagePuller_Pages Finished s = (StopIteration, Finished, s)"
  by (simp add: PagePuller_Pages_def)

lemma Pages_exhausted:
  "next_page_token (self_response s) = [] \<Longrightarrow>
   PagePuller_Pages Suspended s = (StopIteration, Finished, s)"
  by (simp add: PagePuller_Pages_def)

lemma Pages_fetched:
  assumes "next_page_token (self_response s) \<noteq> []"
    and "self_method s (remote s)
           ((heap s (self_request s))\<lparr>page_token := next_page_token (self_response s)\<rparr>) = (Inr r, w)"
  shows "PagePuller_Pages Suspended s =
           (Yield r, Suspended,
            s\<lparr>heap := (heap s)(self_request s :=
                  (heap s (self_request s))\<lparr>page_token := next_page_token (self_response s)\<rparr>),
              calls := calls s @
                  [(heap s (self_request s))\<lparr>page_token := next_page_token (self_response s)\<rparr>],
              remote := w, self_response := r\<rparr>)"
  using assms by (simp add: PagePuller_Pages_def Let_def)


subsection \<open>Consuming a generator\<close>

lemma consume_stop:
  "nxt g s = Some (StopIteration, g', s') \<Longrightarrow> consume nxt g s = Some ([], None, g', s')"
  by (subst consume.simps) simp

lemma consume_raise:
  "nxt g s = Some (Raise err, g', s') \<Longrightarrow> consume nxt g s = Some ([], Some err, g', s')"
  by (subst consume.simps) simp

lemma consume_yield:
  "nxt g s = Some (Yield y, g', s') \<Longrightarrow>
   consume nxt g s = Option.bind (consume nxt g' s') (\<lambda>(ys, fin). Some ((y, s') # ys, fin))"
  by (subst consume.simps) simp

lemma consume_NotStarted:
  "consume (returns PagePuller_Pages) NotStarted s =
     Option.bind (consume (returns PagePuller_Pages) Suspended s)
       (\<lambda>(ys, fin). Some ((self_response s, s) # ys, fin))"
  using consume_yield[of "returns PagePuller_Pages" NotStarted s "self_response s" Suspended s]
  by (simp add: returns_def Pages_NotStarted)

subsection \<open>Running along a chain of pages\<close>

lemma chain_run:
  "page_chain (self_method s) (self_response s # rs) \<Longrightarrow>
   \<exists>ys s'. consume (returns PagePuller_Pages) Suspended s = Some (ys, None, Finished, s') \<and>
     map fst ys = rs \<and>
     calls s' = calls s @ map (\<lambda>r. (heap s (self_request s))\<lparr>page_token := next_page_token r\<rparr>)
                              (butlast (self_response s # rs)) \<and>
     self_response s' = last (self_response s # rs)"
proof (induction rs arbitrary: s)
  case Nil
  then have "consume (returns PagePuller_Pages) Suspended s = Some ([], None, Finished, s)"
    by (intro consume_stop) (simp add: returns_def Pages_exhausted)
  then show ?case by simp
next
  case (Cons r rs)
  let ?tok = "next_page_token (self_response s)"
  let ?req = "(heap s (self_request s))\<lparr>page_token := ?tok\<rparr>"
  from Cons.prems have tok: "?tok \<noteq> []"
    and ans: "fst (self_method s (remote s) ?req) = Inr r"
    and rest: "page_chain (self_method s) (r # rs)"
    by simp_all
  obtain w where call: "self_method s (remote s) ?req = (Inr r, w)"
    using ans by (cases "self_method s (remote s) ?req") simp
  define s1 where "s1 = s\<lparr>heap := (heap s)(self_request s := ?req),
                         calls := calls s @ [?req], remote := w, self_response := r\<rparr>"
  have step: "returns PagePuller_Pages Suspended s = Some (Yield r, Suspended, s1)"
    unfolding returns_def s1_def using Pages_fetched[OF tok call] by simp
  have "page_chain (self_method s1) (self_response s1 # rs)"
    using rest by (simp add: s1_def)
  from Cons.IH[OF this] obtain ys s' where
    run: "consume (returns PagePuller_Pages) Suspended s1 = Some (ys, None, Finished, s')"
    and ys: "map fst ys = rs"
    and cs: "calls s' = calls s1 @
               map (\<lambda>r. (heap s1 (self_request s1))\<lparr>page_token := next_page_token r\<rparr>)
                   (butlast (self_response s1 # rs))"
    and lst: "self_response s' = last (self_response s1 # rs)"
    by blast
  have "consume (returns PagePuller_Pages) Suspended s = Some ((r, s1) # ys, None, Finished, s')"
    using consume_yield[of "returns PagePuller_Pages" Suspended s r Suspended s1] step run
    by simp
  moreover have "calls s' = calls s @
      map (\<lambda>r. (heap s (self_request s))\<lparr>page_token := next_page_token r\<rparr>)
          (butlast (self_response s # r # rs))"
    using cs by (simp add: s1_def)
  moreover have "self_response s' = last (self_response s # r # rs)"
    using lst by (simp add: s1_def)
  ultimately show ?case using ys by simp
qed

subsection \<open>The item view against the pages view\<close>

lemma consume_same_step:
  "nxt g s = nxt g' s' \<Longrightarrow> consume nxt g s = consume nxt g' s'"
  by (subst consume.simps[of nxt g s], subst consume.simps[of nxt g' s']) simp

lemma Items_NotStarted:
  "PagePuller_Items items IterNotStarted s = PagePuller_Items items (IterRunning NotStarted []) s"
  by (subst PagePuller_Items.simps) simp

lemma Items_Cons:
  "PagePuller_Items items (IterRunning g (x # xs)) s = Some (Yield x, IterRunning g xs, s)"
  by (subst PagePuller_Items.simps) simp

lemma Items_Nil:
  "PagePuller_Items items (IterRunning g []) s =
     (case PagePuller_Pages g s of
        (Yield page, g', s') \<Rightarrow> PagePuller_Items items (IterRunning g' (items page)) s'
      | (StopIteration, g', s') \<Rightarrow> Some (StopIteration, IterFinished, s')
      | (Raise err, g', s') \<Rightarrow> Some (Raise err, IterFinished, s'))"
  by (subst PagePuller_Items.simps) simp

lemma Items_Finished:
  "PagePuller_Items items IterFinished s = Some (StopIteration, IterFinished, s)"
  by (subst PagePuller_Items.simps) simp

lemma consume_Items_running:
  "consume (PagePuller_Items items) (IterRunning g xs) s =
     Option.bind (consume (PagePuller_Items items) (IterRunning g []) s)
       (\<lambda>(ys, fin). Some (map (\<lambda>x. (x, s)) xs @ ys, fin))"
proof (induction xs)
  case Nil
  show ?case by (cases "consume (PagePuller_Items items) (IterRunning g []) s") auto
next
  case (Cons x xs)
  have "consume (PagePuller_Items items) (IterRunning g (x # xs)) s =
          Option.bind (consume (PagePuller_Items items) (IterRunning g xs) s)
            (\<lambda>(ys, fin). Some ((x, s) # ys, fin))"
    by (rule consume_yield) (rule Items_Cons)
  then show ?case
    unfolding Cons.IH
    by (cases "consume (PagePuller_Items items) (IterRunning g []) s") auto
qed

lemma Items_follow_Pages:
  "consume nxt g s = Some (ps, fin, g', s') \<Longrightarrow> nxt = returns PagePuller_Pages \<Longrightarrow>
   consume (PagePuller_Items items) (IterRunning g []) s =
     Some (flatten items ps, fin, IterFinished, s')"
proof (induct nxt g s "(ps, fin, g', s')" arbitrary: ps fin g' s' rule: consume_induct)
  case (step consume' nxt g s)
  obtain sig g1 s1 where pg: "PagePuller_Pages g s = (sig, g1, s1)"
    by (cases "PagePuller_Pages g s") auto
  show ?case
  proof (cases sig)
    case (Yield page)
    from step(2) pg Yield step(3) obtain ps' where
      rest: "consume' nxt g1 s1 = Some (ps', fin, g', s')" and ps: "ps = (page, s1) # ps'"
      by (auto simp: returns_def split: Option.bind_splits)
    have "consume (PagePuller_Items items) (IterRunning g1 []) s1 =
            Some (flatten items ps', fin, IterFinished, s')"
      using step(1)[OF rest step(3)] .
    moreover have "consume (PagePuller_Items items) (IterRunning g []) s =
        consume (PagePuller_Items items) (IterRunning g1 (items page)) s1"
      by (rule consume_same_step) (simp add: Items_Nil[of items g s] pg Yield)
    ultimately show ?thesis
      by (simp add: consume_Items_running[of items g1 "items page" s1] ps flatten_def)
  next
    case StopIteration
    from step(2) pg StopIteration step(3) have "ps = []" "fin = None" "s' = s1"
      by (auto simp: returns_def)
    moreover have "PagePuller_Items items (IterRunning g []) s = Some (StopIteration, IterFinished, s1)"
      by (simp add: Items_Nil pg StopIteration)
    ultimately show ?thesis
      by (simp add: consume_stop flatten_def)
  next
    case (Raise err)
    from step(2) pg Raise step(3) have "ps = []" "fin = Some err" "s' = s1"
      by (auto simp: returns_def)
    moreover have "PagePuller_Items items (IterRunning g []) s = Some (Raise err, IterFinished, s1)"
      by (simp add: Items_Nil pg Raise)
    ultimately show ?thesis
      by (simp add: consume_raise flatten_def)
  qed
qed

lemma consume_Pages_yield:
  "PagePuller_Pages g s = (Yield page, g1, s1) \<Longrightarrow>
   consume (returns PagePuller_Pages) g s =
     Option.bind (consume (returns PagePuller_Pages) g1 s1) (\<lambda>(ys, fin). Some ((page, s1) # ys, fin))"
  by (rule consume_yield) (simp add: returns_def)

lemma Items_step_Pages:
  "PagePuller_Items items pc s = Some res \<Longrightarrow>
   (\<forall>g x xs. pc = IterRunning g (x # xs) \<longrightarrow> res = (Yield x, IterRunning g xs, s)) \<and>
   (\<forall>g. pc = IterRunning g [] \<longrightarrow>
      (\<exists>qs. flatten items qs = [] \<and>
        (case res of
           (Yield y, pc', s') \<Rightarrow> \<exists>g1 page ds. pc' = IterRunning g1 ds \<and> items page = y # ds \<and>
              (\<forall>ps fin. consume (returns PagePuller_Pages) g1 s' = Some (ps, fin) \<longrightarrow>
                 consume (returns PagePuller_Pages) g s = Some (qs @ (page, s') # ps, fin))
         | (StopIteration, pc', s') \<Rightarrow> pc' = IterFinished \<and>
              (\<exists>gF. consume (returns PagePuller_Pages) g s = Some (qs, None, gF, s'))
         | (Raise err, pc', s') \<Rightarrow> pc' = IterFinished \<and>
              (\<exists>gF. consume (returns PagePuller_Pages) g s = Some (qs, Some err, gF, s')))))"
proof (induct rule: Items_induct)
  case (step Items' items pc s res)
  have "res = (Yield x, IterRunning g xs, s)" if "pc = IterRunning g (x # xs)" for g x xs
    using step(2) that by simp
  moreover have "\<exists>qs. flatten items qs = [] \<and>
        (case res of
           (Yield y, pc', s') \<Rightarrow> \<exists>g1 page ds. pc' = IterRunning g1 ds \<and> items page = y # ds \<and>
              (\<forall>ps fin. consume (returns PagePuller_Pages) g1 s' = Some (ps, fin) \<longrightarrow>
                 consume (returns PagePuller_Pages) g s = Some (qs @ (page, s') # ps, fin))
         | (StopIteration, pc', s') \<Rightarrow> pc' = IterFinished \<and>
              (\<exists>gF. consume (returns PagePuller_Pages) g s = Some (qs, None, gF, s'))
         | (Raise err, pc', s') \<Rightarrow> pc' = IterFinished \<and>
              (\<exists>gF. consume (returns PagePuller_Pages) g s = Some (qs, Some err, gF, s')))"
    (is "\<exists>qs. ?Q qs g s") if pc: "pc = IterRunning g []" for g
  proof -
    obtain sig g1 s1 where pg: "PagePuller_Pages g s = (sig, g1, s1)"
      by (cases "PagePuller_Pages g s") auto
    show ?thesis
    proof (cases sig)
      case (Yield page)
      with step(2) pc pg have inner: "Items' items (IterRunning g1 (items page)) s1 = Some res"
        by simp
      note IH = step(1)[OF inner]
      note unfold = consume_Pages_yield[OF pg[unfolded Yield]]
      show ?thesis
      proof (cases "items page")
        case Nil
        with IH obtain qs where qs: "?Q qs g1 s1" by auto
        obtain sig' pc' s' where res: "res = (sig', pc', s')"
          by (cases res) auto
        have "?Q ((page, s1) # qs) g s"
        proof (cases sig')
          case (Yield y)
          with qs res obtain g2 page2 ds where
            "pc' = IterRunning g2 ds" "items page2 = y # ds"
            "\<forall>ps fin. consume (returns PagePuller_Pages) g2 s' = Some (ps, fin) \<longrightarrow>
               consume (returns PagePuller_Pages) g1 s1 = Some (qs @ (page2, s') # ps, fin)"
            by auto
          moreover have "flatten items ((page, s1) # qs) = []"
            using qs Nil by (simp add: flatten_def)
          ultimately show ?thesis
            unfolding unfold res Yield by fastforce
        next
          case StopIteration
          then show ?thesis
            using qs Nil res unfolding unfold by (auto simp: flatten_def)
        next
          case (Raise err)
          then show ?thesis
            using qs Nil res unfolding unfold by (auto simp: flatten_def)
        qed
        then show ?thesis ..
      next
        case (Cons y ds)
        with IH have res: "res = (Yield y, IterRunning g1 ds, s1)" by simp
        have "?Q [] g s"
          unfolding unfold res using Cons by (auto simp: flatten_def)
        then show ?thesis ..
      qed
    next
      case StopIteration
      with step(2) pc pg have "res = (StopIteration, IterFinished, s1)" by simp
      moreover have "consume (returns PagePuller_Pages) g s = Some ([], None, g1, s1)"
        by (rule consume_stop) (simp add: returns_def pg StopIteration)
      ultimately have "?Q [] g s" by (simp add: flatten_def)
      then show ?thesis ..
    next
      case (Raise err)
      with step(2) pc pg have "res = (Raise err, IterFinished, s1)" by simp
      moreover have "consume (returns PagePuller_Pages) g s = Some ([], Some err, g1, s1)"
        by (rule consume_raise) (simp add: returns_def pg Raise)
      ultimately have "?Q [] g s" by (simp add: flatten_def)
      then show ?thesis ..
    qed
  qed
  ultimately show ?case by blast
qed

lemma Pages_follow_Items:
  "consume nxt pc s = Some (zs, fin, pcF, sF) \<Longrightarrow> nxt = PagePuller_Items items \<Longrightarrow>
   pc = IterRunning g xs \<Longrightarrow>
   \<exists>ps gF. consume (returns PagePuller_Pages) g s = Some (ps, fin, gF, sF) \<and>
     zs = map (\<lambda>x. (x, s)) xs @ flatten items ps \<and> pcF = IterFinished"
proof (induct nxt pc s "(zs, fin, pcF, sF)" arbitrary: zs fin pcF sF g xs rule: consume_induct)
  case (step consume' nxt pc s)
  note nxt = step(3) and pc = step(4)
  show ?case
  proof (cases xs)
    case (Cons x xs')
    have "nxt pc s = Some (Yield x, IterRunning g xs', s)"
      by (simp add: nxt pc Cons Items_Cons)
    with step(2) obtain zs' where
      rest: "consume' nxt (IterRunning g xs') s = Some (zs', fin, pcF, sF)"
      and zs: "zs = (x, s) # zs'"
      by (auto split: Option.bind_splits)
    from step(1)[OF rest nxt refl] show ?thesis
      by (auto simp: zs Cons)
  next
    case Nil
    from step(2) obtain res where res: "PagePuller_Items items (IterRunning g []) s = Some res"
      by (cases "nxt pc s") (auto simp: nxt pc Nil)
    obtain sig pc' s' where r: "res = (sig, pc', s')" by (cases res) auto
    from Items_step_Pages[OF res] obtain qs where
      empty: "flatten items qs = []" and
      Q: "case res of
           (Yield y, pc', s') \<Rightarrow> \<exists>g1 page ds. pc' = IterRunning g1 ds \<and> items page = y # ds \<and>
              (\<forall>ps fin. consume (returns PagePuller_Pages) g1 s' = Some (ps, fin) \<longrightarrow>
                 consume (returns PagePuller_Pages) g s = Some (qs @ (page, s') # ps, fin))
         | (StopIteration, pc', s') \<Rightarrow> pc' = IterFinished \<and>
              (\<exists>gF. consume (returns PagePuller_Pages) g s = Some (qs, None, gF, s'))
         | (Raise err, pc', s') \<Rightarrow> pc' = IterFinished \<and>
              (\<exists>gF. consume (returns PagePuller_Pages) g s = Some (qs, Some err, gF, s'))"
      by blast
    have step_eq: "nxt pc s = Some (sig, pc', s')"
      using res by (simp add: nxt pc Nil r)
    show ?thesis
    proof (cases sig)
      case (Yield y)
      with Q r obtain g1 page ds where
        pc': "pc' = IterRunning g1 ds" and items: "items page = y # ds" and
        glue: "\<And>ps fin. consume (returns PagePuller_Pages) g1 s' = Some (ps, fin) \<Longrightarrow>
                 consume (returns PagePuller_Pages) g s = Some (qs @ (page, s') # ps, fin)"
        by auto
      from step(2) step_eq Yield obtain zs' where
        rest: "consume' nxt pc' s' = Some (zs', fin, pcF, sF)" and zs: "zs = (y, s') # zs'"
        by (auto split: Option.bind_splits)
      from step(1)[OF rest nxt pc'] obtain ps gF where
        run: "consume (returns PagePuller_Pages) g1 s' = Some (ps, fin, gF, sF)"
        and zs': "zs' = map (\<lambda>x. (x, s')) ds @ flatten items ps" and fin: "pcF = IterFinished"
        by blast
      have "flatten items (qs @ (page, s') # ps) = (y, s') # zs'"
        using empty by (simp add: flatten_def items zs')
      with glue[OF run] fin show ?thesis
        by (auto simp: zs Nil)
    next
      case StopIteration
      with step(2) step_eq have "zs = []" "fin = None" "pcF = pc'" "sF = s'" by auto
      with Q r StopIteration empty show ?thesis
        by (auto simp: Nil)
    next
      case (Raise err)
      with step(2) step_eq have "zs = []" "fin = Some err" "pcF = pc'" "sF = s'" by auto
      with Q r Raise empty show ?thesis
        by (auto simp: Nil)
    qed
  qed
qed

lemma Items_flat_map_Pages:
  "consume (PagePuller_Items items) IterNotStarted s =
     map_option (\<lambda>(ps, fin, g, s'). (flatten items ps, fin, IterFinished, s'))
       (consume (returns PagePuller_Pages) NotStarted s)"
proof -
  have start: "consume (PagePuller_Items items) IterNotStarted s =
      consume (PagePuller_Items items) (IterRunning NotStarted []) s"
    by (rule consume_same_step) (rule Items_NotStarted)
  show ?thesis
  proof (cases "consume (returns PagePuller_Pages) NotStarted s")
    case (Some R)
    obtain ps fin g s' where R: "R = (ps, fin, g, s')" by (cases R) auto
    show ?thesis
      using Items_follow_Pages[OF Some[unfolded R] refl, of items]
      by (simp add: start Some R)
  next
    case None
    show ?thesis
    proof (cases "consume (PagePuller_Items items) (IterRunning NotStarted []) s")
      case None
      then show ?thesis using \<open>consume (returns PagePuller_Pages) NotStarted s = None\<close>
        by (simp add: start)
    next
      case (Some Z)
      obtain zs fin pcF sF where Z: "Z = (zs, fin, pcF, sF)" by (cases Z) auto
      from Pages_follow_Items[OF Some[unfolded Z] refl refl] None show ?thesis by simp
    qed
  qed
qed

subsection \<open>What a step leaves unchanged\<close>

lemma Pages_step:
  assumes "PagePuller_Pages g s = (sig, g', s')"
  shows "self_method s' = self_method s"
    and "self_request s' = self_request s"
    and "next_free s' = next_free s"
    and "b \<noteq> self_request s \<Longrightarrow> heap s' b = heap s b"
    and "self_response s' = (case sig of Yield page \<Rightarrow> page | _ \<Rightarrow> self_response s)"
    and "\<exists>new. calls s' = calls s @ new"
  using assms
  by (cases g; auto simp: PagePuller_Pages_def Let_def split: if_splits prod.splits sum.splits)+

lemma Items_step:
  "PagePuller_Items items pc s = Some (sig, pc', s') \<Longrightarrow>
   self_method s' = self_method s \<and> self_request s' = self_request s \<and>
   next_free s' = next_free s \<and> (\<forall>b. b \<noteq> self_request s \<longrightarrow> heap s' b = heap s b) \<and>
   (\<exists>new. calls s' = calls s @ new)"
proof (induct items pc s "(sig, pc', s')" arbitrary: sig pc' s' rule: Items_induct)
  case (step Items' items pc s)
  show ?case
  proof (cases pc)
    case IterNotStarted
    with step(2) have "Items' items (IterRunning NotStarted []) s = Some (sig, pc', s')" by simp
    from step(1)[OF this] show ?thesis .
  next
    case (IterRunning g xs)
    show ?thesis
    proof (cases xs)
      case (Cons x xs')
      with step(2) IterRunning show ?thesis by simp
    next
      case Nil
      obtain sg g1 s1 where pg: "PagePuller_Pages g s = (sg, g1, s1)"
        by (cases "PagePuller_Pages g s") auto
      note P = Pages_step[OF pg]
      show ?thesis
      proof (cases sg)
        case (Yield page)
        with step(2) IterRunning Nil pg
        have "Items' items (IterRunning g1 (items page)) s1 = Some (sig, pc', s')" by simp
        from step(1)[OF this] P(1-4,6) show ?thesis by auto
      next
        case StopIteration
        with step(2) IterRunning Nil pg have "s' = s1" by simp
        with P(1-4,6) show ?thesis by auto
      next
        case (Raise err)
        with step(2) IterRunning Nil pg have "s' = s1" by simp
        with P(1-4,6) show ?thesis by auto
      qed
    qed
  next
    case IterFinished
    with step(2) show ?thesis by simp
  qed
qed

lemma reachable_frame:
  "reachable s s' \<Longrightarrow>
   self_method s' = self_method s \<and> self_request s' = self_request s \<and>
   next_free s' = next_free s \<and> (\<forall>b. b \<noteq> self_request s \<longrightarrow> heap s' b = heap s b) \<and>
   (\<exists>new. calls s' = calls s @ new)"
proof (induction rule: reachable.induct)
  case (here s)
  show ?case by simp
next
  case (next_page s s1 g sig g' s2)
  from Pages_step[OF next_page(2)[unfolded pages_is_Pages]] next_page(3)
  show ?case by auto
next
  case (next_item s s1 pc isig pc' s2)
  from Items_step[OF next_item(2)[unfolded iter_is_Items]] next_item(3)
  show ?case by auto
qed


subsection \<open>Exhausted pagers\<close>

lemma Pages_exhausted_any:
  "next_page_token (self_response s) = [] \<Longrightarrow> \<exists>sig g'. PagePuller_Pages g s = (sig, g', s)"
  by (cases g) (simp_all add: Pages_NotStarted Pages_exhausted Pages_Finished)

lemma Items_exhausted_running:
  assumes "next_page_token (self_response s) = []"
  shows "\<exists>sig pc'. PagePuller_Items items (IterRunning g xs) s = Some (sig, pc', s)"
proof (cases xs)
  case (Cons x xs')
  then show ?thesis by (simp add: Items_Cons)
next
  case Nil
  have susp: "\<exists>sig pc'. PagePuller_Items items (IterRunning Suspended ys) s = Some (sig, pc', s)"
    for ys
    by (cases ys) (simp_all add: Items_Cons Items_Nil Pages_exhausted[OF assms])
  show ?thesis
  proof (cases g)
    case NotStarted
    then show ?thesis
      using susp[of "items (self_response s)"] by (simp add: Nil Items_Nil Pages_NotStarted)
  next
    case Suspended
    then show ?thesis using susp[of "[]"] by (simp add: Nil)
  next
    case Finished
    then show ?thesis by (simp add: Nil Items_Nil Pages_Finished)
  qed
qed

lemma Items_exhausted_any:
  assumes "next_page_token (self_response s) = []"
  shows "\<exists>sig pc'. PagePuller_Items items pc s = Some (sig, pc', s)"
proof (cases pc)
  case IterNotStarted
  then show ?thesis
    using Items_exhausted_running[OF assms, of items NotStarted "[]"]
    by (simp add: Items_NotStarted)
next
  case (IterRunning g xs)
  then show ?thesis using Items_exhausted_running[OF assms] by simp
next
  case IterFinished
  then show ?thesis by (simp add: Items_Finished)
qed


lemma yielded_is_stored:
  "consume nxt g s = Some (ys, fin, g', s') \<Longrightarrow> nxt = returns PagePuller_Pages \<Longrightarrow>
   \<forall>(page, st) \<in> set ys. self_response st = page"
proof (induct nxt g s "(ys, fin, g', s')" arbitrary: ys fin g' s' rule: consume_induct)
  case (step consume' nxt g s)
  obtain sig g1 s1 where pg: "PagePuller_Pages g s = (sig, g1, s1)"
    by (cases "PagePuller_Pages g s") auto
  show ?case
  proof (cases sig)
    case (Yield page)
    from step(2) pg Yield step(3) obtain ys' where
      rest: "consume' nxt g1 s1 = Some (ys', fin, g', s')" and ys: "ys = (page, s1) # ys'"
      by (auto simp: returns_def split: Option.bind_splits)
    from Pages_step(5)[OF pg] Yield have "self_response s1 = page" by simp
    with step(1)[OF rest step(3)] show ?thesis by (simp add: ys)
  next
    case StopIteration
    with step(2) pg step(3) show ?thesis by (auto simp: returns_def)
  next
    case (Raise err)
    with step(2) pg step(3) show ?thesis by (auto simp: returns_def)
  qed
qed

subsection \<open>The scenario, step by step\<close>

lemma scenario_step:
  "ListDocumentsPager_pages Suspended scenario_start = (Yield page2, Suspended, scenario_end)"
  by (simp add: ListDocumentsPager_pages_def ListDocumentsPager_init_eq fetch_T1_def env0_def
        page1_def Let_def scenario_start_def scenario_end_def)

lemma scenario_end_exhausted: "next_page_token (self_response scenario_end) = []"
  by (simp add: scenario_end_def page2_def)

lemma scenario_pages:
  "consume (returns ListDocumentsPager_pages) NotStarted scenario_start =
     Some ([(page1, scenario_start), (page2, scenario_end)], None, Finished, scenario_end)"
proof -
  have "consume (returns PagePuller_Pages) Suspended scenario_end =
          Some ([], None, Finished, scenario_end)"
    by (rule consume_stop) (simp add: returns_def Pages_exhausted[OF scenario_end_exhausted])
  then have "consume (returns PagePuller_Pages) Suspended scenario_start =
          Some ([(page2, scenario_end)], None, Finished, scenario_end)"
    using consume_Pages_yield[OF scenario_step[unfolded pages_is_Pages]] by simp
  moreover have "self_response scenario_start = page1"
    by (simp add: scenario_start_def ListDocumentsPager_init_eq)
  ultimately show ?thesis
    by (simp add: pages_is_Pages consume_NotStarted)
qed

lemma partition_step:
  "PartitionQueryPager_pages Suspended (PartitionQueryPager_init fetch_P1 0 cursors1 env0) =
     (Yield cursors2, Suspended,
      \<lparr>heap = (heap env0)(1 := \<lparr>page_token = ''P1''\<rparr>), next_free = 2, remote = 1,
       calls = [\<lparr>page_token = ''P1''\<rparr>],
       self_method = fetch_P1, self_request = 1, self_response = cursors2\<rparr>)"
  by (simp add: PartitionQueryPager_pages_def PartitionQueryPager_init_eq fetch_P1_def env0_def
        cursors1_def Let_def)

lemma scenario_end_stops:
  "ListDocumentsPager_pages Suspended scenario_end = (StopIteration, Finished, scenario_end)"
  by (simp add: ListDocumentsPager_pages_def scenario_end_exhausted)

lemma scenario_items:
  "consume ListDocumentsPager_iter IterNotStarted scenario_start =
     Some ([(''a'', scenario_start), (''b'', scenario_start), (''c'', scenario_end)],
           None, IterFinished, scenario_end)"
  using scenario_pages
  by (simp add: iter_is_Items pages_is_Pages Items_flat_map_Pages flatten_def page1_def page2_def)

section \<open>The claims\<close>

text \<open>
  C1. For a chain of \<open>N \<ge> 1\<close> responses in which every response but the last has a
  non-empty token that the callable answers with the next response, and the last has an
  empty token: consuming the pages view of a pager constructed over the first response
  ends normally, yields exactly the \<open>N\<close> responses in order, and invokes the callable
  exactly \<open>N - 1\<close> times, each time with the stored request (the copy of the initial one)
  carrying the previous response's token. For \<open>N = 1\<close> the log of calls is unchanged.
\<close>

theorem pages_yields_chain:
  assumes "page_chain method rs"
  shows "\<exists>ys s'.
     consume (returns ListDocumentsPager_pages) NotStarted
        (ListDocumentsPager_init method request (hd rs) e) = Some (ys, None, Finished, s') \<and>
     map fst ys = rs \<and>
     calls s' = calls e @ map (\<lambda>r. (heap e request)\<lparr>page_token := next_page_token r\<rparr>) (butlast rs) \<and>
     length (calls s') = length (calls e) + (length rs - 1)"
proof -
  let ?s = "ListDocumentsPager_init method request (hd rs) e"
  from assms obtain r rest where rs: "rs = r # rest"
    by (cases rs) auto
  have "page_chain (self_method ?s) (self_response ?s # rest)"
    using assms by (simp add: rs ListDocumentsPager_init_eq)
  from chain_run[OF this] obtain ys s' where
    run: "consume (returns PagePuller_Pages) Suspended ?s = Some (ys, None, Finished, s')"
    and ys: "map fst ys = rest"
    and cs: "calls s' = calls ?s @
        map (\<lambda>r. (heap ?s (self_request ?s))\<lparr>page_token := next_page_token r\<rparr>)
            (butlast (self_response ?s # rest))"
    by blast
  have "consume (returns ListDocumentsPager_pages) NotStarted ?s =
          Some ((r, ?s) # ys, None, Finished, s')"
    unfolding pages_is_Pages consume_NotStarted run
    by (simp add: rs ListDocumentsPager_init_eq)
  moreover have "calls s' = calls e @
      map (\<lambda>r. (heap e request)\<lparr>page_token := next_page_token r\<rparr>) (butlast rs)"
    using cs by (simp add: rs ListDocumentsPager_init_eq)
  ultimately show ?thesis
    using ys by (simp add: rs)
qed

theorem pages_yields_chain_witness:
  "page_chain fetch_T1 [page1, page2] \<and>
   (\<exists>ys s'. consume (returns ListDocumentsPager_pages) NotStarted
        (ListDocumentsPager_init fetch_T1 0 page1 env0) = Some (ys, None, Finished, s') \<and>
      map fst ys = [page1, page2] \<and>
      calls s' = [\<lparr>page_token = ''T1''\<rparr>] \<and>
      length (calls s') = 1)"
proof -
  have chain: "page_chain fetch_T1 [page1, page2]"
    by (simp add: fetch_T1_def page1_def page2_def)
  show ?thesis
    using chain pages_yields_chain[OF chain, of 0 env0]
    by (simp add: env0_def page1_def page2_def)
qed

text \<open>
  C2. Iterating a pager is flat-mapping its pages view through the repeated field
  (\<open>documents\<close> for \<open>ListDocumentsPager\<close>, \<open>partitions\<close> for \<open>PartitionQueryPager\<close>): from
  any state, consuming \<open>__iter__\<close> returns exactly when consuming \<open>pages\<close> does, ends the
  same way in the same final state, and yields the elements of each page in order, each
  element in the very state in which its page was yielded, that is before the next page
  is fetched.
\<close>

theorem iteration_flat_maps_pages:
  "consume ListDocumentsPager_iter IterNotStarted s =
     map_option (\<lambda>(ps, fin, g, s'). (flatten documents ps, fin, IterFinished, s'))
       (consume (returns ListDocumentsPager_pages) NotStarted s) \<and>
   consume PartitionQueryPager_iter IterNotStarted t =
     map_option (\<lambda>(ps, fin, g, t'). (flatten partitions ps, fin, IterFinished, t'))
       (consume (returns PartitionQueryPager_pages) NotStarted t)"
  by (simp add: iter_is_Items partition_iter_is_Items pages_is_Pages partition_pages_is_Pages
        Items_flat_map_Pages)



text \<open>
  C4. For a name that the normal lookup does not find on the pager, reading the
  attribute gives that attribute of the stored response, in every state; after a step that
  yields a page the stored response is that page, so the read reflects the page just
  yielded, and so it does at each yield of a consumed \<open>pages\<close> view.
\<close>

theorem passthrough_reads_latest:
  assumes "name \<notin> set ListDocumentsPager_names" and "name \<notin> set inherited"
  shows "ListDocumentsPager_getattribute getattr_response inherited s name =
       Forwarded (getattr_response (self_response s) name) \<and>
     (\<forall>g page g' s'. ListDocumentsPager_pages g s = (Yield page, g', s') \<longrightarrow>
        ListDocumentsPager_getattribute getattr_response inherited s' name =
          Forwarded (getattr_response page name)) \<and>
     (\<forall>g ys fin g' s'. consume (returns ListDocumentsPager_pages) g s = Some (ys, fin, g', s') \<longrightarrow>
        (\<forall>(page, st) \<in> set ys.
           ListDocumentsPager_getattribute getattr_response inherited st name =
             Forwarded (getattr_response page name)))"
proof -
  have fwd: "ListDocumentsPager_getattribute getattr_response inherited st name =
      Forwarded (getattr_response (self_response st) name)" for st
    using assms
    by (auto simp: ListDocumentsPager_getattribute_def ListDocumentsPager_names_def
          ListDocumentsPager_getattr_def)
  have "self_response s' = page" if "ListDocumentsPager_pages g s = (Yield page, g', s')"
    for g page g' s'
    using Pages_step(5)[OF that[unfolded pages_is_Pages]] by simp
  moreover have "\<forall>(page, st) \<in> set ys. self_response st = page"
    if "consume (returns ListDocumentsPager_pages) g s = Some (ys, fin, g', s')" for g ys fin g' s'
    using yielded_is_stored[OF that[unfolded pages_is_Pages] refl] .
  ultimately show ?thesis
    unfolding fwd by fastforce
qed

theorem passthrough_reads_latest_witness:
  "''next_page_token'' \<notin> set ListDocumentsPager_names \<and>
   ''next_page_token'' \<notin> set [''__class__'', ''__dict__''] \<and>
   ListDocumentsPager_getattribute field_named [''__class__'', ''__dict__''] scenario_start
     ''next_page_token'' = Forwarded (Some ''T1'') \<and>
   ListDocumentsPager_pages Suspended scenario_start = (Yield page2, Suspended, scenario_end) \<and>
   ListDocumentsPager_getattribute field_named [''__class__'', ''__dict__''] scenario_end
     ''next_page_token'' = Forwarded (Some []) \<and>
   consume (returns ListDocumentsPager_pages) NotStarted scenario_start =
     Some ([(page1, scenario_start), (page2, scenario_end)], None, Finished, scenario_end)"
proof -
  have own: "''next_page_token'' \<notin> set ListDocumentsPager_names"
    by (simp add: ListDocumentsPager_names_def)
  have inh: "''next_page_token'' \<notin> set [''__class__'', ''__dict__'']"
    by simp
  show ?thesis
    using own scenario_step scenario_pages
      passthrough_reads_latest[OF own inh, of field_named scenario_start]
    by (simp add: field_named_def page2_def page1_def scenario_start_def
          ListDocumentsPager_init_eq)
qed

text \<open>
  C5. Once the stored response has an empty token, every call of \<open>next\<close> on a \<open>pages\<close>
  generator or on an \<open>__iter__\<close> generator, whatever its frame, returns and leaves the state
  as it is; hence every state reachable from there is that same state: no call of the
  callable is added to the log and the token stays empty.
\<close>

theorem exhausted_is_terminal:
  assumes "next_page_token (self_response s) = []"
  shows "(\<forall>g. \<exists>sig g'. ListDocumentsPager_pages g s = (sig, g', s)) \<and>
     (\<forall>pc. \<exists>sig pc'. ListDocumentsPager_iter pc s = Some (sig, pc', s)) \<and>
     (\<forall>s'. reachable s s' \<longrightarrow> s' = s)"
proof -
  have pages: "\<exists>sig g'. ListDocumentsPager_pages g s = (sig, g', s)" for g
    unfolding pages_is_Pages by (rule Pages_exhausted_any[OF assms])
  have items: "\<exists>sig pc'. ListDocumentsPager_iter pc s = Some (sig, pc', s)" for pc
    unfolding iter_is_Items by (rule Items_exhausted_any[OF assms])
  have "s' = s" if "reachable s s'" for s'
    using that assms
  proof (induction rule: reachable.induct)
    case (here s)
    show ?case ..
  next
    case (next_page s s1 g sig g' s2)
    from next_page.IH next_page.prems have "s1 = s" by simp
    with next_page.hyps(2) next_page.prems Pages_exhausted_any[of s g] show ?case
      by (auto simp: pages_is_Pages)
  next
    case (next_item s s1 pc isig pc' s2)
    from next_item.IH next_item.prems have "s1 = s" by simp
    with next_item.hyps(2) next_item.prems Items_exhausted_any[of s documents pc] show ?case
      by (auto simp: iter_is_Items)
  qed
  with pages items show ?thesis by blast
qed

theorem exhausted_is_terminal_witness:
  "next_page_token (self_response scenario_end) = [] \<and>
   (\<exists>sig g'. ListDocumentsPager_pages Suspended scenario_end = (sig, g', scenario_end)) \<and>
   (\<exists>sig pc'. ListDocumentsPager_iter IterNotStarted scenario_end = Some (sig, pc', scenario_end)) \<and>
   reachable scenario_end scenario_end"
proof -
  have reach: "reachable scenario_end scenario_end"
    by (rule reachable.next_page[OF reachable.here scenario_end_stops])
  show ?thesis
    using scenario_end_exhausted reach exhausted_is_terminal[OF scenario_end_exhausted]
    by simp
qed

text \<open>
  C6. Construction adds no call to the log and leaves the remote side alone, stores the
  callable and the initial response, and stores a reference to a fresh object that holds
  a copy of the initial request. In every state reachable afterwards the pager still
  refers to that object, and every object that existed before construction, the caller's
  request among them, is unchanged.
\<close>

theorem construction_copies_request:
  assumes "request < next_free e"
  shows "calls (ListDocumentsPager_init method request response e) = calls e \<and>
     remote (ListDocumentsPager_init method request response e) = remote e \<and>
     self_method (ListDocumentsPager_init method request response e) = method \<and>
     self_response (ListDocumentsPager_init method request response e) = response \<and>
     self_request (ListDocumentsPager_init method request response e) \<noteq> request \<and>
     heap (ListDocumentsPager_init method request response e)
       (self_request (ListDocumentsPager_init method request response e)) = heap e request \<and>
     (\<forall>s'. reachable (ListDocumentsPager_init method request response e) s' \<longrightarrow>
        self_request s' = self_request (ListDocumentsPager_init method request response e) \<and>
        (\<forall>a < next_free e. heap s' a = heap e a))"
proof -
  let ?s = "ListDocumentsPager_init method request response e"
  have own: "self_request ?s = next_free e"
    by (simp add: ListDocumentsPager_init_eq)
  have old: "heap ?s a = heap e a" if "a < next_free e" for a
    using that by (simp add: ListDocumentsPager_init_eq)
  have "self_request s' = self_request ?s \<and> (\<forall>a < next_free e. heap s' a = heap e a)"
    if "reachable ?s s'" for s'
    using reachable_frame[OF that] old own by auto
  then show ?thesis
    using assms by (simp add: ListDocumentsPager_init_eq)
qed

theorem construction_copies_request_witness:
  "(0::nat) < next_free env0 \<and>
   calls scenario_start = [] \<and>
   self_response scenario_start = page1 \<and>
   self_request scenario_start \<noteq> 0 \<and>
   heap scenario_start (self_request scenario_start) = \<lparr>page_token = []\<rparr> \<and>
   reachable scenario_start scenario_end \<and>
   self_request scenario_end = self_request scenario_start \<and>
   heap scenario_end 0 = \<lparr>page_token = []\<rparr> \<and>
   heap scenario_end (self_request scenario_end) = \<lparr>page_token = ''T1''\<rparr>"
proof -
  have alloc: "(0::nat) < next_free env0"
    by (simp add: env0_def)
  have reach: "reachable scenario_start scenario_end"
    by (rule reachable.next_page[OF reachable.here scenario_step])
  note copied = construction_copies_request[OF alloc, of fetch_T1 page1,
      folded scenario_start_def]
  from copied reach have kept: "self_request scenario_end = self_request scenario_start \<and>
      (\<forall>a < next_free env0. heap scenario_end a = heap env0 a)"
    by blast
  have "heap scenario_end (self_request scenario_end) = \<lparr>page_token = ''T1''\<rparr>"
    by (simp add: scenario_end_def)
  with kept alloc reach copied show ?thesis
    by (simp add: env0_def)
qed

text \<open>
  C7. \<open>ListDocumentsPager\<close> and \<open>PartitionQueryPager\<close> are two instances of the one
  paginator of the specification: construction, the pages view, the item view, attribute
  delegation and the display of each class are those of \<open>PagePuller\<close>, instantiated with the
  repeated field (\<open>documents\<close>, \<open>partitions\<close>) and the class name.
\<close>

theorem pagers_are_one_paginator:
  "ListDocumentsPager_init = PagePuller_Construct \<and>
   PartitionQueryPager_init = PagePuller_Construct \<and>
   ListDocumentsPager_pages = PagePuller_Pages \<and>
   PartitionQueryPager_pages = PagePuller_Pages \<and>
   ListDocumentsPager_iter = PagePuller_Items documents \<and>
   PartitionQueryPager_iter = PagePuller_Items partitions \<and>
   ListDocumentsPager_getattr = PagePuller_Delegate \<and>
   PartitionQueryPager_getattr = PagePuller_Delegate \<and>
   ListDocumentsPager_repr = PagePuller_Display ''ListDocumentsPager'' \<and>
   PartitionQueryPager_repr = PagePuller_Display ''PartitionQueryPager''"
proof (intro conjI)
  show "ListDocumentsPager_init = PagePuller_Construct"
    by (intro ext) (simp add: ListDocumentsPager_init_eq PagePuller_Construct_def)
  show "PartitionQueryPager_init = PagePuller_Construct"
    by (intro ext) (simp add: PartitionQueryPager_init_eq PagePuller_Construct_def)
  show "ListDocumentsPager_pages = PagePuller_Pages"
    by (rule pages_is_Pages)
  show "PartitionQueryPager_pages = PagePuller_Pages"
    by (rule partition_pages_is_Pages)
  show "ListDocumentsPager_iter = PagePuller_Items documents"
    by (rule iter_is_Items)
  show "PartitionQueryPager_iter = PagePuller_Items partitions"
    by (rule partition_iter_is_Items)
  show "ListDocumentsPager_getattr = PagePuller_Delegate"
    by (intro ext) (simp add: ListDocumentsPager_getattr_def PagePuller_Delegate_def)
  show "PartitionQueryPager_getattr = PagePuller_Delegate"
    by (intro ext) (simp add: PartitionQueryPager_getattr_def PagePuller_Delegate_def)
  show "ListDocumentsPager_repr = PagePuller_Display ''ListDocumentsPager''"
    by (intro ext) (simp add: ListDocumentsPager_repr_def PagePuller_Display_def)
  show "PartitionQueryPager_repr = PagePuller_Display ''PartitionQueryPager''"
    by (intro ext) (simp add: PartitionQueryPager_repr_def PagePuller_Display_def)
qed

text \<open>
  C8. In every state the \<open>repr\<close> of a pager is its class name followed by the \<open>repr\<close> of the
  stored response between angle brackets; after a step that yields a page, it shows that
  page.
\<close>

theorem repr_shows_current_response:
  "ListDocumentsPager_repr repr_response s =
     ''ListDocumentsPager<'' @ repr_response (self_response s) @ ''>'' \<and>
   PartitionQueryPager_repr repr_response' t =
     ''PartitionQueryPager<'' @ repr_response' (self_response t) @ ''>'' \<and>
   (\<forall>g page g' s'. ListDocumentsPager_pages g s = (Yield page, g', s') \<longrightarrow>
      ListDocumentsPager_repr repr_response s' =
        ''ListDocumentsPager<'' @ repr_response page @ ''>'') \<and>
   (\<forall>g page g' t'. PartitionQueryPager_pages g t = (Yield page, g', t') \<longrightarrow>
      PartitionQueryPager_repr repr_response' t' =
        ''PartitionQueryPager<'' @ repr_response' page @ ''>'')"
proof -
  have "self_response s' = page" if "ListDocumentsPager_pages g s = (Yield page, g', s')"
    for g page g' s'
    using Pages_step(5)[OF that[unfolded pages_is_Pages]] by simp
  moreover have "self_response t' = page" if "PartitionQueryPager_pages g t = (Yield page, g', t')"
    for g page g' t'
    using Pages_step(5)[OF that[unfolded partition_pages_is_Pages]] by simp
  ultimately show ?thesis
    by (simp add: ListDocumentsPager_repr_def PartitionQueryPager_repr_def)
qed

theorem repr_shows_current_response_witness:
  "ListDocumentsPager_repr show_token scenario_start = ''ListDocumentsPager<token=T1>'' \<and>
   ListDocumentsPager_pages Suspended scenario_start = (Yield page2, Suspended, scenario_end) \<and>
   ListDocumentsPager_repr show_token scenario_end = ''ListDocumentsPager<token=>'' \<and>
   PartitionQueryPager_repr show_token (PartitionQueryPager_init fetch_P1 0 cursors1 env0) =
     ''PartitionQueryPager<token=P1>'' \<and>
   PartitionQueryPager_pages Suspended (PartitionQueryPager_init fetch_P1 0 cursors1 env0) =
     (Yield cursors2, Suspended,
      \<lparr>heap = (heap env0)(1 := \<lparr>page_token = ''P1''\<rparr>), next_free = 2, remote = 1,
       calls = [\<lparr>page_token = ''P1''\<rparr>],
       self_method = fetch_P1, self_request = 1, self_response = cursors2\<rparr>) \<and>
   PartitionQueryPager_repr show_token
     \<lparr>heap = (heap env0)(1 := \<lparr>page_token = ''P1''\<rparr>), next_free = 2, remote = 1,
      calls = [\<lparr>page_token = ''P1''\<rparr>],
      self_method = fetch_P1, self_request = 1, self_response = cursors2\<rparr> =
     ''PartitionQueryPager<token=>''"
  using scenario_step partition_step
    repr_shows_current_response[of show_token scenario_start show_token
      "PartitionQueryPager_init fetch_P1 0 cursors1 env0"]
  by (simp add: show_token_def scenario_start_def ListDocumentsPager_init_eq
        PartitionQueryPager_init_eq page1_def page2_def cursors1_def cursors2_def)





end
